theory Spec2Isabelle
  imports Main "HOL-Library.FSet"
begin

section \<open>Minesweeper: the knowledge-based player of minesweeper.py\<close>

text \<open>
  A cell is a Python tuple \<open>(i, j)\<close> of unbounded integers. A Python \<open>set\<close> of cells
  is a finite set; \<open>len\<close> of it is \<open>fcard\<close>.
\<close>

type_synonym cell = "int \<times> int"

subsection \<open>class Sentence\<close>

record sentence =
  cells :: "cell fset"
  count :: int

text \<open>\<open>Sentence.__init__\<close>: \<open>self.cells = set(cells); self.count = count\<close>.\<close>

definition Sentence :: "cell fset \<Rightarrow> int \<Rightarrow> sentence" where
  "Sentence cs n = \<lparr>cells = cs, count = n\<rparr>"

text \<open>
  \<open>known_mines\<close> and \<open>known_safes\<close> return a generator over \<open>self.cells\<close> when their
  test succeeds and fall off the end of the function otherwise, which in Python
  returns \<open>None\<close>. The generator is modelled by the set it ranges over.
\<close>

definition known_mines :: "sentence \<Rightarrow> cell fset option" where
  "known_mines s = (if count s = int (fcard (cells s)) then Some (cells s) else None)"

definition known_safes :: "sentence \<Rightarrow> cell fset option" where
  "known_safes s = (if count s = 0 then Some (cells s) else None)"

text \<open>\<open>Sentence.mark_mine\<close> and \<open>Sentence.mark_safe\<close>; both are guarded by \<open>self.count > 0\<close>.\<close>

definition sentence_mark_mine :: "sentence \<Rightarrow> cell \<Rightarrow> sentence" where
  "sentence_mark_mine s c =
     (if c |\<in>| cells s \<and> count s > 0
      then s\<lparr>cells := cells s |-| {|c|}, count := count s - 1\<rparr>
      else s)"

definition sentence_mark_safe :: "sentence \<Rightarrow> cell \<Rightarrow> sentence" where
  "sentence_mark_safe s c =
     (if c |\<in>| cells s \<and> count s > 0
      then s\<lparr>cells := cells s |-| {|c|}\<rparr>
      else s)"

text \<open>The data-model invariant of a sentence: \<open>0 <= count <= |cells|\<close>.\<close>

definition sentence_inv :: "sentence \<Rightarrow> bool" where
  "sentence_inv s = (0 \<le> count s \<and> count s \<le> int (fcard (cells s)))"

subsection \<open>Iterating over a Python set\<close>

text \<open>
  \<open>for x in some_set\<close> visits every element once, in an order that Python does not
  specify. A loop over a set is therefore a \<open>fold\<close> of the loop body along any list
  that enumerates the set without repetition, and whatever is proved of a method that
  iterates over a set is proved for every such list.
\<close>

definition iteration_of :: "'a fset \<Rightarrow> 'a list \<Rightarrow> bool" where
  "iteration_of S xs = (fset_of_list xs = S \<and> distinct xs)"

text \<open>Python's \<open>range(a, b)\<close>: the integers from \<open>a\<close> up to \<open>b - 1\<close>.\<close>

definition range_py :: "int \<Rightarrow> int \<Rightarrow> int list" where
  "range_py a b = [a..b - 1]"

subsection \<open>class Minesweeper: the board\<close>

text \<open>
  Only the part of the game that feeds the player is modelled: the grid of booleans
  \<open>self.board\<close> (\<open>height\<close> rows of \<open>width\<close> entries, as \<open>__init__\<close> builds it),
  \<open>is_mine\<close> and \<open>nearby_mines\<close>. Where the mines are is a parameter.
\<close>

record minesweeper =
  board_height :: int
  board_width :: int
  board :: "bool list list"

definition wf_board :: "minesweeper \<Rightarrow> bool" where
  "wf_board g = (int (length (board g)) = board_height g \<and>
                 list_all (\<lambda>row. int (length row) = board_width g) (board g))"

definition in_bounds :: "minesweeper \<Rightarrow> cell \<Rightarrow> bool" where
  "in_bounds g c = (0 \<le> fst c \<and> fst c < board_height g \<and> 0 \<le> snd c \<and> snd c < board_width g)"

text \<open>\<open>is_mine\<close> reads \<open>self.board[i][j]\<close>; it is called on cells of the board.\<close>

definition is_mine :: "minesweeper \<Rightarrow> cell \<Rightarrow> bool" where
  "is_mine g c = board g ! nat (fst c) ! nat (snd c)"

text \<open>
  \<open>nearby_mines\<close>: the two nested \<open>range\<close> loops over the 3 x 3 block around the cell,
  skipping the cell itself, counting the positions that are in bounds and hold a mine.
\<close>

definition nearby_mines :: "minesweeper \<Rightarrow> cell \<Rightarrow> int" where
  "nearby_mines g c =
     int (length (filter (\<lambda>p. p \<noteq> c \<and> in_bounds g p \<and> is_mine g p)
            (List.product (range_py (fst c - 1) (fst c + 2))
                          (range_py (snd c - 1) (snd c + 2)))))"

subsection \<open>class MinesweeperAI\<close>

record ai =
  height :: int
  width :: int
  moves_made :: "cell fset"
  mines :: "cell fset"
  safes :: "cell fset"
  knowledge :: "sentence list"

text \<open>\<open>MinesweeperAI.__init__\<close>.\<close>

definition MinesweeperAI :: "int \<Rightarrow> int \<Rightarrow> ai" where
  "MinesweeperAI h w =
     \<lparr>height = h, width = w, moves_made = {||}, mines = {||}, safes = {||}, knowledge = []\<rparr>"

text \<open>\<open>_get_all_cells\<close>: every \<open>(i, j)\<close> with \<open>i\<close> in \<open>range(height)\<close>, \<open>j\<close> in \<open>range(width)\<close>.\<close>

definition get_all_cells :: "ai \<Rightarrow> cell fset" where
  "get_all_cells st =
     fset_of_list (List.product (range_py 0 (height st)) (range_py 0 (width st)))"

text \<open>
  \<open>_get_surrounding_cells\<close>. The upper limits are \<open>min(self.height, cell[0] + 1)\<close> and
  \<open>min(self.width, cell[1] + 1)\<close>, and the loops run up to and including them.
\<close>

definition get_surrounding_cells :: "ai \<Rightarrow> cell \<Rightarrow> cell fset" where
  "get_surrounding_cells st c =
     (let border_height_max = min (height st) (fst c + 1);
          border_height_min = max 0 (fst c - 1);
          border_width_max = min (width st) (snd c + 1);
          border_width_min = max 0 (snd c - 1)
      in fset_of_list (filter (\<lambda>p. p \<noteq> c)
           (List.product (range_py border_height_min (border_height_max + 1))
                         (range_py border_width_min (border_width_max + 1)))))"

text \<open>
  \<open>MinesweeperAI.mark_mine\<close> and \<open>MinesweeperAI.mark_safe\<close>: record the fact and pass it
  to every sentence of the knowledge base.
\<close>

definition mark_mine :: "ai \<Rightarrow> cell \<Rightarrow> ai" where
  "mark_mine st c =
     st\<lparr>mines := finsert c (mines st),
        knowledge := map (\<lambda>s. sentence_mark_mine s c) (knowledge st)\<rparr>"


subsection \<open>_update_sentence\<close>

text \<open>
  \<open>_update_sentence\<close> works on \<open>deepcopy_sentence\<close>, a deep copy of the sentence it is
  given: a local value \<open>d\<close>. The body of its first loop (\<open>for safe in self.safes\<close>)
  acts on the copy and on \<open>self.mines\<close>: it removes \<open>safe\<close> from the copy, and when the
  copy then has as many cells as its count and at least one, it adds every cell of
  the copy to \<open>self.mines\<close> and removes each of them from the copy, decrementing the
  count once per cell.
\<close>

definition safes_loop_body :: "cell \<Rightarrow> sentence \<times> cell fset \<Rightarrow> sentence \<times> cell fset" where
  "safes_loop_body safe = (\<lambda>(d, ms).
     let d1 = (if safe |\<in>| cells d then d\<lparr>cells := cells d |-| {|safe|}\<rparr> else d)
     in if int (fcard (cells d1)) = count d1 \<and> fcard (cells d1) > 0
        then (d1\<lparr>cells := {||}, count := count d1 - int (fcard (cells d1))\<rparr>, ms |\<union>| cells d1)
        else (d1, ms))"

text \<open>
  The body of the second loop (\<open>for mine in self.mines\<close>) acts on the copy and on
  \<open>self.safes\<close>.
\<close>

definition mines_loop_body :: "cell \<Rightarrow> sentence \<times> cell fset \<Rightarrow> sentence \<times> cell fset" where
  "mines_loop_body mine = (\<lambda>(d, ss).
     if mine |\<in>| cells d
     then (let d1 = d\<lparr>cells := cells d |-| {|mine|}, count := count d - 1\<rparr>
           in if count d1 = 0 \<and> fcard (cells d1) > 0 then (d1, ss |\<union>| cells d1) else (d1, ss))
     else (d, ss))"

text \<open>
  \<open>update_sentence st s st'\<close>: a call \<open>self._update_sentence(s)\<close> in state \<open>st\<close> can end
  in state \<open>st'\<close>. The first loop iterates over \<open>self.safes\<close>, which it does not change;
  the second over \<open>self.mines\<close> as the first loop left it.
\<close>

inductive update_sentence :: "ai \<Rightarrow> sentence \<Rightarrow> ai \<Rightarrow> bool" where
  skip: "\<not> (count s > 0 \<and> fcard (cells s) > 0) \<Longrightarrow> update_sentence st s st"
| run: "count s > 0 \<and> fcard (cells s) > 0 \<Longrightarrow>
        iteration_of (safes st) xs \<Longrightarrow>
        fold safes_loop_body xs (s, mines st) = (d1, ms) \<Longrightarrow>
        iteration_of ms ys \<Longrightarrow>
        fold mines_loop_body ys (d1, safes st) = (d2, ss) \<Longrightarrow>
        update_sentence st s (st\<lparr>mines := ms, safes := ss\<rparr>)"

text \<open>The propagation pass: \<open>for sentence in self.knowledge: self._update_sentence(sentence)\<close>.\<close>

inductive propagate :: "ai \<Rightarrow> sentence list \<Rightarrow> ai \<Rightarrow> bool" where
  finished: "propagate st [] st"
| step: "update_sentence st s st1 \<Longrightarrow> propagate st1 ss st2 \<Longrightarrow> propagate st (s # ss) st2"

subsection \<open>add_knowledge\<close>

text \<open>
  The first part of \<open>add_knowledge\<close>: the cell is added to \<open>moves_made\<close> and \<open>safes\<close>,
  and \<open>new_sentence\<close>, over the surrounding cells, is appended to \<open>self.knowledge\<close>.
\<close>

definition append_sentence :: "ai \<Rightarrow> cell \<Rightarrow> int \<Rightarrow> ai" where
  "append_sentence st c n =
     (let st1 = st\<lparr>moves_made := finsert c (moves_made st), safes := finsert c (safes st)\<rparr>;
          surr_cells = get_surrounding_cells st1 c;
          new_sentence = Sentence surr_cells n
      in st1\<lparr>knowledge := knowledge st1 @ [new_sentence]\<rparr>)"

text \<open>
  The appended sentence is the same object as the local \<open>new_sentence\<close>, so the calls
  \<open>new_sentence.mark_safe\<close> and \<open>new_sentence.mark_mine\<close> of the two marking loops change
  the entry of \<open>self.knowledge\<close> at the position \<open>k\<close> where it was appended, the last.
\<close>

definition mark_safes_body :: "nat \<Rightarrow> cell \<Rightarrow> ai \<Rightarrow> ai" where
  "mark_safes_body k surr_cell st =
     (let st1 = st\<lparr>knowledge := (knowledge st)[k := sentence_mark_safe (knowledge st ! k) surr_cell]\<rparr>;
          st2 = st1\<lparr>safes := finsert surr_cell (safes st1)\<rparr>
      in if surr_cell |\<in>| mines st2 then st2\<lparr>mines := mines st2 |-| {|surr_cell|}\<rparr> else st2)"

definition mark_mines_body :: "nat \<Rightarrow> cell \<Rightarrow> ai \<Rightarrow> ai" where
  "mark_mines_body k surr_cell st =
     (let st1 = st\<lparr>knowledge := (knowledge st)[k := sentence_mark_mine (knowledge st ! k) surr_cell]\<rparr>
      in st1\<lparr>mines := finsert surr_cell (mines st1)\<rparr>)"

text \<open>
  The two marking loops (\<open>if count == 0\<close> and \<open>if count == len(surr_cells)\<close>); \<open>xs\<close> and
  \<open>ys\<close> are the orders in which they visit \<open>surr_cells\<close>.
\<close>

definition mark_surrounding :: "cell list \<Rightarrow> cell list \<Rightarrow> cell fset \<Rightarrow> int \<Rightarrow> ai \<Rightarrow> ai" where
  "mark_surrounding xs ys surr_cells n st =
     (let k = length (knowledge st) - 1;
          st1 = (if n = 0 then fold (mark_safes_body k) xs st else st)
      in if n = int (fcard surr_cells) then fold (mark_mines_body k) ys st1 else st1)"

text \<open>\<open>add_knowledge st c n st'\<close>: a call \<open>add_knowledge(c, n)\<close> in state \<open>st\<close> can end in \<open>st'\<close>.\<close>

inductive add_knowledge :: "ai \<Rightarrow> cell \<Rightarrow> int \<Rightarrow> ai \<Rightarrow> bool" where
  call: "st1 = append_sentence st c n \<Longrightarrow>
         surr_cells = get_surrounding_cells st c \<Longrightarrow>
         iteration_of surr_cells xs \<Longrightarrow>
         iteration_of surr_cells ys \<Longrightarrow>
         st2 = mark_surrounding xs ys surr_cells n st1 \<Longrightarrow>
         propagate st2 (knowledge st2) st3 \<Longrightarrow>
         add_knowledge st c n st3"

subsection \<open>Move selection\<close>





subsection \<open>Play on a board\<close>

text \<open>
  The states the player goes through in a game on a board \<open>g\<close> as \<open>Minesweeper.__init__\<close>
  builds it: the player is constructed with the board's dimensions, and \<open>add_knowledge\<close> is called for a revealed cell of the board
  that is not a mine, with the count \<open>nearby_mines\<close> reports for it.
\<close>

inductive reachable :: "minesweeper \<Rightarrow> ai \<Rightarrow> bool" where
  fresh: "wf_board g \<Longrightarrow> reachable g (MinesweeperAI (board_height g) (board_width g))"
| move: "reachable g st \<Longrightarrow> in_bounds g c \<Longrightarrow> \<not> is_mine g c \<Longrightarrow>
         add_knowledge st c (nearby_mines g c) st' \<Longrightarrow> reachable g st'"

text \<open>
  What the player's state says about the board: a cell holds a mine when it is in
  bounds and the board has a mine there; a sentence is true of the board when its
  count is the number of its cells that hold a mine.
\<close>

definition mine_at :: "minesweeper \<Rightarrow> cell \<Rightarrow> bool" where
  "mine_at g c = (in_bounds g c \<and> is_mine g c)"

definition holds :: "minesweeper \<Rightarrow> sentence \<Rightarrow> bool" where
  "holds g s = (count s = int (fcard (ffilter (mine_at g) (cells s))))"

definition sound :: "minesweeper \<Rightarrow> ai \<Rightarrow> bool" where
  "sound g st = (height st = board_height g \<and> width st = board_width g \<and>
                 (\<forall>c. c |\<in>| safes st \<longrightarrow> \<not> mine_at g c) \<and>
                 (\<forall>c. c |\<in>| mines st \<longrightarrow> mine_at g c) \<and>
                 list_all (holds g) (knowledge st))"

text \<open>
  The neighbour set in the words of the design document, to compare with
  \<open>get_surrounding_cells\<close>: the cells of the board within Chebyshev distance 1 of the
  cell, the cell itself excluded, that are not already revealed.
\<close>

definition unrevealed_neighbours_spec :: "ai \<Rightarrow> cell \<Rightarrow> cell fset" where
  "unrevealed_neighbours_spec st c =
     ffilter (\<lambda>p. max \<bar>fst p - fst c\<bar> \<bar>snd p - snd c\<bar> \<le> 1 \<and> p \<noteq> c \<and> p |\<notin>| moves_made st)
       (get_all_cells st)"

subsection \<open>Example games\<close>

text \<open>
  A 2 x 2 board whose only free cell is the corner \<open>(0, 0)\<close>, and the player's state
  after that cell has been revealed.
\<close>

definition corner_board :: minesweeper where
  "corner_board = \<lparr>board_height = 2, board_width = 2, board = [[False, True], [True, True]]\<rparr>"

definition corner_state :: ai where
  "corner_state = \<lparr>height = 2, width = 2, moves_made = {|(0, 0)|},
      mines = {|(0, 1), (1, 0), (1, 1)|}, safes = {|(0, 0)|},
      knowledge = [\<lparr>cells = {||}, count = 0\<rparr>]\<rparr>"



text \<open>
  After the corner, a call that no board produces: \<open>(0, 1)\<close>, which the count 3 of
  the corner made a mine, reported as a free cell with count 0.
\<close>

definition overlap_state :: ai where
  "overlap_state = \<lparr>height = 2, width = 2, moves_made = {|(0, 0), (0, 1)|}, mines = {|(0, 1)|},
      safes = {|(0, 0), (0, 1), (0, 2), (1, 0), (1, 1), (1, 2)|},
      knowledge = [\<lparr>cells = {||}, count = 0\<rparr>,
                   Sentence {|(0, 0), (0, 2), (1, 0), (1, 1), (1, 2)|} 0]\<rparr>"

text \<open>
  A 2 x 2 board with mines in its right column. The player reveals \<open>(1, 0)\<close>, then
  \<open>(0, 0)\<close>; \<open>before_pass\<close> is the state of the second call when its propagation
  pass starts.
\<close>

definition edge_board :: minesweeper where
  "edge_board = \<lparr>board_height = 2, board_width = 2, board = [[False, True], [False, True]]\<rparr>"

definition after_first_move :: ai where
  "after_first_move = \<lparr>height = 2, width = 2, moves_made = {|(1, 0)|}, mines = {||},
      safes = {|(1, 0)|},
      knowledge = [Sentence {|(0, 0), (0, 1), (1, 1), (2, 0), (2, 1)|} 2]\<rparr>"

definition before_pass :: ai where
  "before_pass = \<lparr>height = 2, width = 2, moves_made = {|(0, 0), (1, 0)|}, mines = {||},
      safes = {|(0, 0), (1, 0)|},
      knowledge = [Sentence {|(0, 0), (0, 1), (1, 1), (2, 0), (2, 1)|} 2,
                   Sentence {|(0, 1), (1, 0), (1, 1)|} 2]\<rparr>"

definition after_second_move :: ai where
  "after_second_move = before_pass\<lparr>mines := {|(0, 1), (1, 1)|}\<rparr>"

text \<open>
  A state that is consistent with no board: \<open>(0, 0)\<close> is in \<open>safes\<close>, and the
  sentence says that two of \<open>(0, 0)\<close>, \<open>(0, 1)\<close> and the safe \<open>(1, 0)\<close> are mines.
\<close>

definition clash_state :: ai where
  "clash_state = \<lparr>height = 2, width = 2, moves_made = {||}, mines = {||},
      safes = {|(0, 0), (1, 0)|}, knowledge = [Sentence {|(0, 0), (0, 1), (1, 0)|} 2]\<rparr>"

section \<open>Properties of Sentence\<close>

lemma fcard_remove_mem: "c |\<in>| A \<Longrightarrow> int (fcard (A |-| {|c|})) = int (fcard A) - 1"
  using fcard_Suc_fminus1 [of c A] by linarith

lemma fcard_pos_iff: "0 < fcard A \<longleftrightarrow> A \<noteq> {||}"
  using fcard_0_eq [of A] by (metis neq0_conv)

text \<open>
  C3. A sentence with \<open>0 <= count <= |cells|\<close> keeps that invariant under
  \<open>mark_mine(c)\<close> for every cell \<open>c\<close>. Under \<open>mark_safe(c)\<close> it keeps it exactly when
  \<open>c\<close> is not one of its cells or \<open>count < |cells|\<close>: removing a cell from a sentence
  whose count equals its size leaves more mines than cells.
\<close>

theorem C3_mark_preserves_inv:
  assumes "sentence_inv s"
  shows "sentence_inv (sentence_mark_mine s c) \<and>
         (sentence_inv (sentence_mark_safe s c) \<longleftrightarrow>
            (c |\<notin>| cells s \<or> count s < int (fcard (cells s))))"
proof -
  have mine: "sentence_inv (sentence_mark_mine s c)"
    using assms by (auto simp: sentence_inv_def sentence_mark_mine_def fcard_remove_mem)
  have safe: "sentence_inv (sentence_mark_safe s c) \<longleftrightarrow>
                (c |\<notin>| cells s \<or> count s < int (fcard (cells s)))"
  proof (cases "c |\<in>| cells s")
    case False
    then show ?thesis using assms by (simp add: sentence_mark_safe_def)
  next
    case True
    then have "0 < fcard (cells s)"
      by (auto simp: fcard_pos_iff)
    with True assms show ?thesis
      by (auto simp: sentence_inv_def sentence_mark_safe_def fcard_remove_mem)
  qed
  from mine safe show ?thesis by blast
qed

theorem C3_mark_preserves_inv_witness:
  "sentence_inv (Sentence {|(0, 0), (0, 1)|} 1) \<and>
   sentence_inv (sentence_mark_mine (Sentence {|(0, 0), (0, 1)|} 1) (0, 0)) \<and>
   sentence_inv (sentence_mark_safe (Sentence {|(0, 0), (0, 1)|} 1) (0, 0))"
proof -
  have h: "sentence_inv (Sentence {|(0, 0), (0, 1)|} 1)"
    by (simp add: sentence_inv_def Sentence_def fcard_finsert_if)
  have "count (Sentence {|(0, 0), (0, 1)|} 1) < int (fcard (cells (Sentence {|(0, 0), (0, 1)|} 1)))"
    by (simp add: Sentence_def fcard_finsert_if)
  with h C3_mark_preserves_inv [OF h, of "(0, 0)"] show ?thesis by blast
qed

theorem C3_mark_safe_breaks_inv:
  "sentence_inv (Sentence {|(0, 0)|} 1) \<and>
   \<not> sentence_inv (sentence_mark_safe (Sentence {|(0, 0)|} 1) (0, 0))"
  by (simp add: sentence_inv_def sentence_mark_safe_def Sentence_def fcard_finsert_if
        fcard_fempty)

text \<open>
  C5. \<open>mark_safe(c)\<close> removes \<open>c\<close> from the cells and leaves the count unchanged when
  \<open>c\<close> is one of the cells and \<open>count > 0\<close>; in every other case, also when \<open>c\<close> is
  one of the cells of a sentence whose count is not positive, it changes nothing.
\<close>

theorem C5_mark_safe_effect:
  "(c |\<in>| cells s \<and> count s > 0 \<longrightarrow>
      cells (sentence_mark_safe s c) = cells s |-| {|c|} \<and>
      c |\<notin>| cells (sentence_mark_safe s c) \<and>
      count (sentence_mark_safe s c) = count s) \<and>
   (\<not> (c |\<in>| cells s \<and> count s > 0) \<longrightarrow> sentence_mark_safe s c = s)"
  by (simp add: sentence_mark_safe_def)

theorem C5_mark_safe_effect_witness:
  "cells (sentence_mark_safe (Sentence {|(0, 0), (0, 1)|} 1) (0, 0)) = {|(0, 1)|} \<and>
   count (sentence_mark_safe (Sentence {|(0, 0), (0, 1)|} 1) (0, 0)) = 1 \<and>
   sentence_mark_safe (Sentence {|(0, 0), (0, 1)|} 1) (5, 5) = Sentence {|(0, 0), (0, 1)|} 1"
  using C5_mark_safe_effect [of "(0, 0)" "Sentence {|(0, 0), (0, 1)|} 1"]
        C5_mark_safe_effect [of "(5, 5)" "Sentence {|(0, 0), (0, 1)|} 1"]
  by (auto simp: Sentence_def)

theorem C5_mark_safe_keeps_cell_at_count_zero:
  "(0, 0) |\<in>| cells (Sentence {|(0, 0)|} 0) \<and>
   (0, 0) |\<in>| cells (sentence_mark_safe (Sentence {|(0, 0)|} 0) (0, 0))"
  by (simp add: sentence_mark_safe_def Sentence_def)

text \<open>
  C7. A sentence constructed with count 0 has \<open>known_safes()\<close> equal to its full cell
  set; its \<open>known_mines()\<close> is \<open>None\<close> when the cell set is not empty and the empty
  collection, not \<open>None\<close>, when the cell set is empty. For every sentence, a non-empty
  result of \<open>known_mines()\<close> means \<open>count == |cells| > 0\<close>.
\<close>

theorem C7_zero_count_closure:
  "known_safes (Sentence cs 0) = Some cs \<and>
   (cs \<noteq> {||} \<longrightarrow> known_mines (Sentence cs 0) = None) \<and>
   (cs = {||} \<longrightarrow> known_mines (Sentence cs 0) = Some {||}) \<and>
   (known_mines s = Some X \<and> X \<noteq> {||} \<longrightarrow>
      count s = int (fcard (cells s)) \<and> 0 < count s \<and> X = cells s)"
proof -
  have a: "cs \<noteq> {||} \<longrightarrow> fcard cs \<noteq> 0"
    using fcard_pos_iff [of cs] by auto
  have b: "known_mines s = Some X \<and> X \<noteq> {||} \<longrightarrow>
      count s = int (fcard (cells s)) \<and> 0 < count s \<and> X = cells s"
  proof (intro impI)
    assume h: "known_mines s = Some X \<and> X \<noteq> {||}"
    then have e: "count s = int (fcard (cells s))" and x: "X = cells s"
      by (auto simp: known_mines_def split: if_splits)
    from h x have "0 < fcard (cells s)"
      by (simp add: fcard_pos_iff)
    with e x show "count s = int (fcard (cells s)) \<and> 0 < count s \<and> X = cells s"
      by linarith
  qed
  have c: "known_safes (Sentence cs 0) = Some cs"
    by (simp add: known_safes_def Sentence_def)
  have d: "cs \<noteq> {||} \<longrightarrow> known_mines (Sentence cs 0) = None"
    using a by (simp add: known_mines_def Sentence_def)
  have e: "cs = {||} \<longrightarrow> known_mines (Sentence cs 0) = Some {||}"
    by (simp add: known_mines_def Sentence_def)
  from c d e b show ?thesis by (intro conjI)
qed

theorem C7_zero_count_closure_witness:
  "known_safes (Sentence {|(0, 1)|} 0) = Some {|(0, 1)|} \<and>
   known_mines (Sentence {|(0, 1)|} 0) = None \<and>
   count (Sentence {|(0, 1)|} 1) = 1"
proof -
  have k: "known_mines (Sentence {|(0, 1)|} 1) = Some {|(0, 1)|} \<and> {|(0, 1)|} \<noteq> ({||} :: cell fset)"
    by (simp add: known_mines_def Sentence_def fcard_finsert_if)
  from k C7_zero_count_closure [of "{|(0, 1)|}" "Sentence {|(0, 1)|} 1" "{|(0, 1)|}"]
  show ?thesis by (simp add: Sentence_def)
qed

theorem C7_known_mines_of_empty_is_not_none:
  "known_mines (Sentence {||} 0) = Some {||} \<and> known_mines (Sentence {||} 0) \<noteq> None"
  by (simp add: known_mines_def Sentence_def)

section \<open>Set iteration, board cells and the frame of add_knowledge\<close>

lemma iteration_exists: "\<exists>xs. iteration_of S xs"
proof -
  obtain xs where "set xs = fset S" "distinct xs"
    using finite_distinct_list [of "fset S"] by auto
  then have "fset_of_list xs = S"
    by (metis fset_inverse fset_of_list.rep_eq)
  with \<open>distinct xs\<close> show ?thesis unfolding iteration_of_def by blast
qed

lemma iteration_of_set: "iteration_of S xs \<Longrightarrow> set xs = fset S"
  by (auto simp: iteration_of_def fset_of_list.rep_eq)

lemma safes_loop_body_mono: "safes_loop_body x (d, ms) = (d', ms') \<Longrightarrow> ms |\<subseteq>| ms'"
  by (auto simp: safes_loop_body_def Let_def split: if_splits)

lemma safes_loop_mono: "fold safes_loop_body xs (d, ms) = (d', ms') \<Longrightarrow> ms |\<subseteq>| ms'"
proof (induction xs arbitrary: d ms)
  case Nil
  then show ?case by simp
next
  case (Cons x xs)
  obtain d1 ms1 where b: "safes_loop_body x (d, ms) = (d1, ms1)" by fastforce
  with Cons.prems have "fold safes_loop_body xs (d1, ms1) = (d', ms')" by simp
  then have "ms1 |\<subseteq>| ms'" by (rule Cons.IH)
  moreover from b have "ms |\<subseteq>| ms1" by (rule safes_loop_body_mono)
  ultimately show ?case by blast
qed

lemma mines_loop_body_mono: "mines_loop_body y (d, ss) = (d', ss') \<Longrightarrow> ss |\<subseteq>| ss'"
  by (auto simp: mines_loop_body_def Let_def split: if_splits)

lemma mines_loop_mono: "fold mines_loop_body ys (d, ss) = (d', ss') \<Longrightarrow> ss |\<subseteq>| ss'"
proof (induction ys arbitrary: d ss)
  case Nil
  then show ?case by simp
next
  case (Cons y ys)
  obtain d1 ss1 where b: "mines_loop_body y (d, ss) = (d1, ss1)" by fastforce
  with Cons.prems have "fold mines_loop_body ys (d1, ss1) = (d', ss')" by simp
  then have "ss1 |\<subseteq>| ss'" by (rule Cons.IH)
  moreover from b have "ss |\<subseteq>| ss1" by (rule mines_loop_body_mono)
  ultimately show ?case by blast
qed

lemma update_sentence_frame:
  "update_sentence st s st' \<Longrightarrow>
     knowledge st' = knowledge st \<and> moves_made st' = moves_made st \<and>
     height st' = height st \<and> width st' = width st"
  by (induction rule: update_sentence.induct) simp_all

lemma update_sentence_mono:
  "update_sentence st s st' \<Longrightarrow> mines st |\<subseteq>| mines st' \<and> safes st |\<subseteq>| safes st'"
proof (induction rule: update_sentence.induct)
  case (skip s st)
  then show ?case by simp
next
  case (run s st xs d1 ms ys d2 ss)
  then show ?case using safes_loop_mono mines_loop_mono by simp
qed

lemma update_sentence_total: "\<exists>st'. update_sentence st s st'"
proof (cases "count s > 0 \<and> fcard (cells s) > 0")
  case False
  then show ?thesis using update_sentence.skip by blast
next
  case True
  obtain xs where xs: "iteration_of (safes st) xs" using iteration_exists by blast
  obtain d1 ms where l1: "fold safes_loop_body xs (s, mines st) = (d1, ms)" by fastforce
  obtain ys where ys: "iteration_of ms ys" using iteration_exists by blast
  obtain d2 ss where l2: "fold mines_loop_body ys (d1, safes st) = (d2, ss)" by fastforce
  from update_sentence.run [OF True xs l1 ys l2] show ?thesis by blast
qed

lemma propagate_frame:
  "propagate st ss st' \<Longrightarrow>
     knowledge st' = knowledge st \<and> moves_made st' = moves_made st \<and>
     height st' = height st \<and> width st' = width st"
  by (induction rule: propagate.induct) (simp_all add: update_sentence_frame)

lemma propagate_mono:
  "propagate st ss st' \<Longrightarrow> mines st |\<subseteq>| mines st' \<and> safes st |\<subseteq>| safes st'"
proof (induction rule: propagate.induct)
  case (finished st)
  then show ?case by simp
next
  case (step st s st1 ss st2)
  with update_sentence_mono [OF step.hyps(1)] show ?case by blast
qed

lemma propagate_total: "\<exists>st'. propagate st ss st'"
proof (induction ss arbitrary: st)
  case Nil
  then show ?case using propagate.finished by blast
next
  case (Cons s ss)
  obtain st1 where "update_sentence st s st1" using update_sentence_total by blast
  moreover obtain st2 where "propagate st1 ss st2" using Cons.IH by blast
  ultimately show ?case using propagate.step by blast
qed

lemma ffilter_fempty: "ffilter P {||} = {||}"
  by auto

lemma ffilter_finsert:
  "ffilter P (finsert x A) = (if P x then finsert x (ffilter P A) else ffilter P A)"
  by auto

lemma mem_range_py: "i \<in> set (range_py a b) \<longleftrightarrow> a \<le> i \<and> i < b"
  by (auto simp: range_py_def)

lemma mem_get_all_cells:
  "c |\<in>| get_all_cells st \<longleftrightarrow>
     0 \<le> fst c \<and> fst c < height st \<and> 0 \<le> snd c \<and> snd c < width st"
  by (cases c) (auto simp: get_all_cells_def fset_of_list_elem mem_range_py)

lemma mem_get_surrounding_cells:
  "p |\<in>| get_surrounding_cells st c \<longleftrightarrow>
     p \<noteq> c \<and> max 0 (fst c - 1) \<le> fst p \<and> fst p \<le> min (height st) (fst c + 1) \<and>
     max 0 (snd c - 1) \<le> snd p \<and> snd p \<le> min (width st) (snd c + 1)"
  by (cases p) (auto simp: get_surrounding_cells_def Let_def fset_of_list_elem mem_range_py)

lemma get_surrounding_cells_cong:
  "height st' = height st \<Longrightarrow> width st' = width st \<Longrightarrow>
     get_surrounding_cells st' c = get_surrounding_cells st c"
  by (simp add: get_surrounding_cells_def)

lemma append_sentence_simps:
  "knowledge (append_sentence st c n) = knowledge st @ [Sentence (get_surrounding_cells st c) n]"
  "moves_made (append_sentence st c n) = finsert c (moves_made st)"
  "safes (append_sentence st c n) = finsert c (safes st)"
  "mines (append_sentence st c n) = mines st"
  "height (append_sentence st c n) = height st"
  "width (append_sentence st c n) = width st"
  by (simp_all add: append_sentence_def Let_def get_surrounding_cells_def)








section \<open>Soundness of the inferences on a board\<close>

lemma holds_remove_safe:
  assumes "\<not> mine_at g x" "holds g d"
  shows "holds g (d\<lparr>cells := cells d |-| {|x|}\<rparr>)"
proof -
  have "ffilter (mine_at g) (cells d |-| {|x|}) = ffilter (mine_at g) (cells d)"
    using assms(1) by auto
  with assms(2) show ?thesis by (simp add: holds_def)
qed

lemma holds_remove_mine:
  assumes "mine_at g x" "x |\<in>| cells d" "holds g d"
  shows "holds g (d\<lparr>cells := cells d |-| {|x|}, count := count d - 1\<rparr>)"
proof -
  have "ffilter (mine_at g) (cells d |-| {|x|}) = ffilter (mine_at g) (cells d) |-| {|x|}"
    by auto
  moreover have "x |\<in>| ffilter (mine_at g) (cells d)"
    using assms(1,2) by simp
  ultimately have "int (fcard (ffilter (mine_at g) (cells d |-| {|x|}))) =
      int (fcard (ffilter (mine_at g) (cells d))) - 1"
    using fcard_remove_mem [of x "ffilter (mine_at g) (cells d)"] by presburger
  with assms(3) show ?thesis by (simp add: holds_def)
qed

lemma holds_full:
  assumes "holds g d" "int (fcard (cells d)) = count d" "c |\<in>| cells d"
  shows "mine_at g c"
proof -
  have "ffilter (mine_at g) (cells d) |\<subseteq>| cells d" by auto
  moreover have "fcard (cells d) \<le> fcard (ffilter (mine_at g) (cells d))"
    using assms(1,2) by (simp add: holds_def)
  ultimately have "ffilter (mine_at g) (cells d) = cells d"
    by (rule fcard_seteq)
  with assms(3) show ?thesis by (metis ffmember_filter)
qed

lemma holds_zero:
  assumes "holds g d" "count d = 0" "c |\<in>| cells d"
  shows "\<not> mine_at g c"
proof -
  have "ffilter (mine_at g) (cells d) = {||}"
    using assms(1,2) by (simp add: holds_def)
  with assms(3) show ?thesis by (metis ffmember_filter fempty_iff)
qed

lemma holds_emptied: "int (fcard (cells d)) = count d \<Longrightarrow>
  holds g (d\<lparr>cells := {||}, count := count d - int (fcard (cells d))\<rparr>)"
  by (simp add: holds_def ffilter_fempty)

lemma safes_loop_body_sound:
  assumes "\<not> mine_at g x" "holds g d" "\<forall>c. c |\<in>| ms \<longrightarrow> mine_at g c"
    and "safes_loop_body x (d, ms) = (d', ms')"
  shows "holds g d' \<and> (\<forall>c. c |\<in>| ms' \<longrightarrow> mine_at g c)"
proof -
  define d1 where "d1 = (if x |\<in>| cells d then d\<lparr>cells := cells d |-| {|x|}\<rparr> else d)"
  have h1: "holds g d1"
    using assms(1,2) by (simp add: d1_def holds_remove_safe)
  have eq: "safes_loop_body x (d, ms) =
      (if int (fcard (cells d1)) = count d1 \<and> fcard (cells d1) > 0
       then (d1\<lparr>cells := {||}, count := count d1 - int (fcard (cells d1))\<rparr>, ms |\<union>| cells d1)
       else (d1, ms))"
    by (simp add: safes_loop_body_def d1_def Let_def)
  show ?thesis
  proof (cases "int (fcard (cells d1)) = count d1 \<and> fcard (cells d1) > 0")
    case True
    with eq assms(4) have e: "d' = d1\<lparr>cells := {||}, count := count d1 - int (fcard (cells d1))\<rparr>"
      "ms' = ms |\<union>| cells d1"
      by simp_all
    from True h1 have "\<forall>c. c |\<in>| cells d1 \<longrightarrow> mine_at g c"
      using holds_full by blast
    moreover from True have "holds g d'"
      unfolding e by (intro holds_emptied) simp
    ultimately show ?thesis using e(2) assms(3) by auto
  next
    case False
    with eq assms(4) have "d' = d1" "ms' = ms"
      by simp_all
    with h1 assms(3) show ?thesis by simp
  qed
qed

lemma safes_loop_sound:
  assumes "\<forall>x \<in> set xs. \<not> mine_at g x" "holds g d" "\<forall>c. c |\<in>| ms \<longrightarrow> mine_at g c"
    and "fold safes_loop_body xs (d, ms) = (d', ms')"
  shows "holds g d' \<and> (\<forall>c. c |\<in>| ms' \<longrightarrow> mine_at g c)"
  using assms
proof (induction xs arbitrary: d ms)
  case Nil
  then show ?case by simp
next
  case (Cons x xs)
  obtain d1 ms1 where b: "safes_loop_body x (d, ms) = (d1, ms1)" by fastforce
  from Cons.prems(1) have nx: "\<not> mine_at g x" by simp
  from safes_loop_body_sound [OF nx Cons.prems(2,3) b]
  have s1: "holds g d1" "\<forall>c. c |\<in>| ms1 \<longrightarrow> mine_at g c" by auto
  from Cons.prems(4) b have f: "fold safes_loop_body xs (d1, ms1) = (d', ms')" by simp
  from Cons.prems(1) have r: "\<forall>x \<in> set xs. \<not> mine_at g x" by simp
  from Cons.IH [OF r s1 f] show ?case .
qed

lemma mines_loop_body_sound:
  assumes "mine_at g y" "holds g d" "\<forall>c. c |\<in>| ss \<longrightarrow> \<not> mine_at g c"
    and "mines_loop_body y (d, ss) = (d', ss')"
  shows "holds g d' \<and> (\<forall>c. c |\<in>| ss' \<longrightarrow> \<not> mine_at g c)"
proof (cases "y |\<in>| cells d")
  case False
  with assms(4) have "d' = d" "ss' = ss" by (simp_all add: mines_loop_body_def)
  with assms(2,3) show ?thesis by simp
next
  case True
  define d1 where "d1 = d\<lparr>cells := cells d |-| {|y|}, count := count d - 1\<rparr>"
  have h1: "holds g d1"
    unfolding d1_def using assms(1) True assms(2) by (rule holds_remove_mine)
  have eq: "mines_loop_body y (d, ss) =
      (if count d1 = 0 \<and> fcard (cells d1) > 0 then (d1, ss |\<union>| cells d1) else (d1, ss))"
    using True by (simp add: mines_loop_body_def d1_def Let_def)
  show ?thesis
  proof (cases "count d1 = 0 \<and> fcard (cells d1) > 0")
    case z: True
    with eq assms(4) have e: "d' = d1" "ss' = ss |\<union>| cells d1"
      by simp_all
    from z h1 have "\<forall>c. c |\<in>| cells d1 \<longrightarrow> \<not> mine_at g c"
      using holds_zero by blast
    with e h1 assms(3) show ?thesis by auto
  next
    case False
    with eq assms(4) have "d' = d1" "ss' = ss"
      by simp_all
    with h1 assms(3) show ?thesis by simp
  qed
qed

lemma mines_loop_sound:
  assumes "\<forall>y \<in> set ys. mine_at g y" "holds g d" "\<forall>c. c |\<in>| ss \<longrightarrow> \<not> mine_at g c"
    and "fold mines_loop_body ys (d, ss) = (d', ss')"
  shows "holds g d' \<and> (\<forall>c. c |\<in>| ss' \<longrightarrow> \<not> mine_at g c)"
  using assms
proof (induction ys arbitrary: d ss)
  case Nil
  then show ?case by simp
next
  case (Cons y ys)
  obtain d1 ss1 where b: "mines_loop_body y (d, ss) = (d1, ss1)" by fastforce
  from Cons.prems(1) have my: "mine_at g y" by simp
  from mines_loop_body_sound [OF my Cons.prems(2,3) b]
  have s1: "holds g d1" "\<forall>c. c |\<in>| ss1 \<longrightarrow> \<not> mine_at g c" by auto
  from Cons.prems(4) b have f: "fold mines_loop_body ys (d1, ss1) = (d', ss')" by simp
  from Cons.prems(1) have r: "\<forall>y \<in> set ys. mine_at g y" by simp
  from Cons.IH [OF r s1 f] show ?case .
qed

lemma iteration_of_mem: "iteration_of S xs \<Longrightarrow> (x \<in> set xs) = (x |\<in>| S)"
  by (auto simp: iteration_of_def fset_of_list_elem)

lemma update_sentence_sound:
  assumes "update_sentence st s st'" "sound g st" "holds g s"
  shows "sound g st'"
  using assms
proof (induction rule: update_sentence.induct)
  case (skip s st)
  then show ?case by simp
next
  case (run s st xs d1 ms ys d2 ss)
  from run.prems(1) have sf: "\<forall>c. c |\<in>| safes st \<longrightarrow> \<not> mine_at g c"
    and mn: "\<forall>c. c |\<in>| mines st \<longrightarrow> mine_at g c"
    by (simp_all add: sound_def)
  from sf have xs: "\<forall>x \<in> set xs. \<not> mine_at g x"
    using iteration_of_mem [OF run.hyps(2)] by blast
  from safes_loop_sound [OF xs run.prems(2) mn run.hyps(3)]
  have l1: "holds g d1" "\<forall>c. c |\<in>| ms \<longrightarrow> mine_at g c" by auto
  from l1(2) have ys: "\<forall>y \<in> set ys. mine_at g y"
    using iteration_of_mem [OF run.hyps(4)] by blast
  from mines_loop_sound [OF ys l1(1) sf run.hyps(5)]
  have l2: "\<forall>c. c |\<in>| ss \<longrightarrow> \<not> mine_at g c" by auto
  from run.prems(1) l1(2) l2 show ?case by (simp add: sound_def)
qed

lemma propagate_sound:
  assumes "propagate st ss st'" "sound g st" "list_all (holds g) ss"
  shows "sound g st'"
  using assms
proof (induction rule: propagate.induct)
  case (finished st)
  then show ?case by simp
next
  case (step st s st1 ss st2)
  from step.prems(2) have "holds g s" "list_all (holds g) ss" by simp_all
  with step show ?case using update_sentence_sound by blast
qed

lemma sentence_mark_safe_holds:
  "\<not> mine_at g x \<Longrightarrow> holds g s \<Longrightarrow> holds g (sentence_mark_safe s x)"
  by (simp add: sentence_mark_safe_def holds_remove_safe)

lemma sentence_mark_mine_holds:
  "mine_at g x \<Longrightarrow> holds g s \<Longrightarrow> holds g (sentence_mark_mine s x)"
  by (simp add: sentence_mark_mine_def holds_remove_mine)

lemma list_all_update:
  assumes "list_all P xs" "k < length xs \<Longrightarrow> P v"
  shows "list_all P (xs[k := v])"
proof (cases "k < length xs")
  case True
  with assms show ?thesis
    using set_update_subset_insert [of xs k v] by (auto simp: list_all_iff)
next
  case False
  with assms(1) show ?thesis by (simp add: list_update_beyond)
qed

lemma mark_safes_body_sound:
  assumes "\<not> mine_at g x" "sound g st"
  shows "sound g (mark_safes_body k x st)"
proof -
  from assms(2) have ka: "list_all (holds g) (knowledge st)" by (simp add: sound_def)
  have "list_all (holds g) ((knowledge st)[k := sentence_mark_safe (knowledge st ! k) x])"
  proof (rule list_all_update [OF ka])
    assume "k < length (knowledge st)"
    with ka have "holds g (knowledge st ! k)" by (simp add: list_all_length)
    with assms(1) show "holds g (sentence_mark_safe (knowledge st ! k) x)"
      by (rule sentence_mark_safe_holds)
  qed
  with assms show ?thesis
    by (auto simp: sound_def mark_safes_body_def Let_def)
qed

lemma mark_mines_body_sound:
  assumes "mine_at g x" "sound g st"
  shows "sound g (mark_mines_body k x st)"
proof -
  from assms(2) have ka: "list_all (holds g) (knowledge st)" by (simp add: sound_def)
  have "list_all (holds g) ((knowledge st)[k := sentence_mark_mine (knowledge st ! k) x])"
  proof (rule list_all_update [OF ka])
    assume "k < length (knowledge st)"
    with ka have "holds g (knowledge st ! k)" by (simp add: list_all_length)
    with assms(1) show "holds g (sentence_mark_mine (knowledge st ! k) x)"
      by (rule sentence_mark_mine_holds)
  qed
  with assms show ?thesis
    by (auto simp: sound_def mark_mines_body_def Let_def)
qed

lemma fold_mark_safes_sound:
  "\<forall>x \<in> set xs. \<not> mine_at g x \<Longrightarrow> sound g st \<Longrightarrow> sound g (fold (mark_safes_body k) xs st)"
  by (induction xs arbitrary: st) (simp_all add: mark_safes_body_sound)

lemma fold_mark_mines_sound:
  "\<forall>x \<in> set xs. mine_at g x \<Longrightarrow> sound g st \<Longrightarrow> sound g (fold (mark_mines_body k) xs st)"
  by (induction xs arbitrary: st) (simp_all add: mark_mines_body_sound)

lemma distinct_range_py: "distinct (range_py a b)"
  by (simp add: range_py_def)

lemma nearby_mines_holds:
  assumes "height st = board_height g" "width st = board_width g"
  shows "holds g (Sentence (get_surrounding_cells st c) (nearby_mines g c))"
proof -
  let ?L = "List.product (range_py (fst c - 1) (fst c + 2)) (range_py (snd c - 1) (snd c + 2))"
  let ?Q = "\<lambda>p. p \<noteq> c \<and> in_bounds g p \<and> is_mine g p"
  have "distinct (filter ?Q ?L)"
    by (simp add: distinct_product distinct_range_py)
  then have len: "length (filter ?Q ?L) = card (set (filter ?Q ?L))"
    by (rule distinct_card [symmetric])
  have "set (filter ?Q ?L) = fset (ffilter (mine_at g) (get_surrounding_cells st c))"
  proof (rule set_eqI)
    fix p :: cell
    obtain i j where p: "p = (i, j)" by (cases p)
    show "p \<in> set (filter ?Q ?L) \<longleftrightarrow> p \<in> fset (ffilter (mine_at g) (get_surrounding_cells st c))"
      using assms
      by (auto simp: p mem_range_py mem_get_surrounding_cells mine_at_def in_bounds_def)
  qed
  with len have "nearby_mines g c = int (fcard (ffilter (mine_at g) (get_surrounding_cells st c)))"
    by (simp add: nearby_mines_def fcard.rep_eq)
  then show ?thesis by (simp add: holds_def Sentence_def)
qed

lemma append_sentence_sound:
  assumes "sound g st" "\<not> mine_at g c"
  shows "sound g (append_sentence st c (nearby_mines g c))"
proof -
  from assms(1) have d: "height st = board_height g" "width st = board_width g"
    by (simp_all add: sound_def)
  from nearby_mines_holds [OF d] assms show ?thesis
    by (auto simp: sound_def append_sentence_simps)
qed

lemma mark_surrounding_sound:
  assumes "sound g st" "holds g (Sentence S n)" "iteration_of S xs" "iteration_of S ys"
  shows "sound g (mark_surrounding xs ys S n st)"
proof -
  let ?k = "length (knowledge st) - 1"
  let ?st1 = "if n = 0 then fold (mark_safes_body ?k) xs st else st"
  have s1: "sound g ?st1"
  proof (cases "n = 0")
    case True
    have "\<forall>x \<in> set xs. \<not> mine_at g x"
    proof
      fix x assume "x \<in> set xs"
      then have "x |\<in>| cells (Sentence S n)"
        using iteration_of_mem [OF assms(3)] by (simp add: Sentence_def)
      with assms(2) True show "\<not> mine_at g x"
        using holds_zero [of g "Sentence S n" x] by (simp add: Sentence_def)
    qed
    with assms(1) True show ?thesis by (simp add: fold_mark_safes_sound)
  next
    case False
    with assms(1) show ?thesis by simp
  qed
  have "sound g (if n = int (fcard S) then fold (mark_mines_body ?k) ys ?st1 else ?st1)"
  proof (cases "n = int (fcard S)")
    case True
    have "\<forall>y \<in> set ys. mine_at g y"
    proof
      fix y assume "y \<in> set ys"
      then have "y |\<in>| cells (Sentence S n)"
        using iteration_of_mem [OF assms(4)] by (simp add: Sentence_def)
      with assms(2) True show "mine_at g y"
        using holds_full [of g "Sentence S n" y] by (simp add: Sentence_def)
    qed
    with s1 True show ?thesis using fold_mark_mines_sound by presburger
  next
    case False
    with s1 show ?thesis by presburger
  qed
  then show ?thesis unfolding mark_surrounding_def Let_def .
qed

lemma add_knowledge_sound:
  assumes "add_knowledge st c (nearby_mines g c) st'" "sound g st" "\<not> mine_at g c"
  shows "sound g st'"
  using assms(1)
proof (cases rule: add_knowledge.cases)
  case (call st1 S xs ys st2)
  from assms(2) have d: "height st = board_height g" "width st = board_width g"
    by (simp_all add: sound_def)
  have h: "holds g (Sentence S (nearby_mines g c))"
    unfolding call(2) using d by (rule nearby_mines_holds)
  have "sound g st1"
    unfolding call(1) using assms(2,3) by (rule append_sentence_sound)
  then have s2: "sound g st2"
    unfolding call(5) using h call(3,4) by (rule mark_surrounding_sound)
  then have "list_all (holds g) (knowledge st2)" by (simp add: sound_def)
  with call(6) s2 show ?thesis by (rule propagate_sound)
qed

lemma fresh_sound: "sound g (MinesweeperAI (board_height g) (board_width g))"
  by (simp add: sound_def MinesweeperAI_def)

lemma reachable_sound: "reachable g st \<Longrightarrow> sound g st"
proof (induction rule: reachable.induct)
  case (fresh g)
  show ?case by (rule fresh_sound)
next
  case (move g st c st')
  from move.hyps(3) have "\<not> mine_at g c" by (simp add: mine_at_def)
  with move.hyps(4) move.IH show ?case using add_knowledge_sound by blast
qed

lemma sound_disjoint: "sound g st \<Longrightarrow> safes st |\<inter>| mines st = {||}"
  by (auto simp: sound_def)

section \<open>Move selection\<close>





section \<open>The subset-equal-count rule\<close>

lemma three_cells:
  assumes "A \<noteq> B" "C \<noteq> A" "C \<noteq> B"
  shows "fcard {|A, B, C|} = 3" "{|A, B, C|} |-| {|C|} = {|A, B|}" "fcard {|A, B|} = 2"
  using assms by (auto simp: fcard_finsert_if)

lemma safes_loop_resolves:
  assumes "A \<noteq> B" "C \<noteq> A" "C \<noteq> B"
    and "\<forall>x \<in> set xs. x \<noteq> A \<and> x \<noteq> B"
    and "(C \<in> set xs \<and> cells d = {|A, B, C|} \<and> count d = 2) \<or> (A |\<in>| ms \<and> B |\<in>| ms)"
    and "fold safes_loop_body xs (d, ms) = (d', ms')"
  shows "A |\<in>| ms' \<and> B |\<in>| ms'"
  using assms(4-6)
proof (induction xs arbitrary: d ms)
  case Nil
  then show ?case by simp
next
  case (Cons x xs)
  obtain d1 ms1 where b: "safes_loop_body x (d, ms) = (d1, ms1)" by fastforce
  with Cons.prems(3) have f: "fold safes_loop_body xs (d1, ms1) = (d', ms')" by simp
  from Cons.prems(1) have r: "\<forall>x \<in> set xs. x \<noteq> A \<and> x \<noteq> B" by simp
  show ?case
  proof (cases "A |\<in>| ms \<and> B |\<in>| ms")
    case True
    with safes_loop_mono [OF Cons.prems(3)] show ?thesis by blast
  next
    case False
    with Cons.prems(2) have st: "C \<in> set (x # xs)" "cells d = {|A, B, C|}" "count d = 2" by auto
    show ?thesis
    proof (cases "x = C")
      case True
      with st three_cells [OF assms(1-3)] b have "ms1 = ms |\<union>| {|A, B|}"
        by (simp add: safes_loop_body_def Let_def)
      then have "A |\<in>| ms1 \<and> B |\<in>| ms1" by simp
      with safes_loop_mono [OF f] show ?thesis by blast
    next
      case False
      with Cons.prems(1) st(2) have "x |\<notin>| cells d" by simp
      with st three_cells [OF assms(1-3)] b have "d1 = d" "ms1 = ms"
        by (simp_all add: safes_loop_body_def Let_def)
      moreover from False st(1) have "C \<in> set xs" by simp
      ultimately have "(C \<in> set xs \<and> cells d1 = {|A, B, C|} \<and> count d1 = 2) \<or>
          (A |\<in>| ms1 \<and> B |\<in>| ms1)"
        using st by simp
      from Cons.IH [OF r this f] show ?thesis .
    qed
  qed
qed

lemma update_sentence_resolves:
  assumes "update_sentence st (Sentence {|A, B, C|} 2) st'"
    and "A \<noteq> B" "C \<noteq> A" "C \<noteq> B"
    and "C |\<in>| safes st" "A |\<notin>| safes st" "B |\<notin>| safes st"
  shows "A |\<in>| mines st' \<and> B |\<in>| mines st'"
  using assms(1)
proof (cases rule: update_sentence.cases)
  case skip
  with three_cells(1) [OF assms(2-4)] show ?thesis by (simp add: Sentence_def)
next
  case (run xs d1 ms ys d2 ss)
  from assms(6,7) have n: "\<forall>x \<in> set xs. x \<noteq> A \<and> x \<noteq> B"
    using iteration_of_mem [OF run(3)] by blast
  from assms(5) have "C \<in> set xs"
    using iteration_of_mem [OF run(3)] by blast
  then have "(C \<in> set xs \<and> cells (Sentence {|A, B, C|} 2) = {|A, B, C|} \<and>
      count (Sentence {|A, B, C|} 2) = 2) \<or> (A |\<in>| mines st \<and> B |\<in>| mines st)"
    by (simp add: Sentence_def)
  from safes_loop_resolves [OF assms(2-4) n this run(4)] run(1) show ?thesis by simp
qed

lemma holds_two_of_three:
  assumes "holds g (Sentence {|A, B, C|} 2)" "\<not> mine_at g C"
  shows "mine_at g A \<and> mine_at g B \<and> A \<noteq> B \<and> C \<noteq> A \<and> C \<noteq> B"
  using assms
  by (auto simp: holds_def Sentence_def ffilter_finsert ffilter_fempty fcard_finsert_if
      fcard_fempty split: if_splits)

lemma propagate_resolves:
  assumes "propagate st ss st'" "sound g st" "list_all (holds g) ss"
    and "Sentence {|A, B, C|} 2 \<in> set ss" "C |\<in>| safes st"
  shows "A |\<in>| mines st' \<and> B |\<in>| mines st'"
  using assms
proof (induction rule: propagate.induct)
  case (finished st)
  then show ?case by simp
next
  case (step st s st1 ss st2)
  from step.prems(2) have hs: "holds g s" and hss: "list_all (holds g) ss" by simp_all
  from step.prems(1) hs step.hyps(1) have s1: "sound g st1"
    using update_sentence_sound by blast
  from step.prems(4) have c1: "C |\<in>| safes st1"
    using update_sentence_mono [OF step.hyps(1)] by blast
  show ?case
  proof (cases "s = Sentence {|A, B, C|} 2")
    case True
    from step.prems(1,4) have nc: "\<not> mine_at g C" unfolding sound_def by blast
    from hs True have "holds g (Sentence {|A, B, C|} 2)" by simp
    from holds_two_of_three [OF this nc]
    have m: "mine_at g A" "mine_at g B" and d: "A \<noteq> B" "C \<noteq> A" "C \<noteq> B" by auto
    from m step.prems(1) have "A |\<notin>| safes st" "B |\<notin>| safes st"
      unfolding sound_def by blast+
    with step.hyps(1) True d step.prems(4) have "A |\<in>| mines st1 \<and> B |\<in>| mines st1"
      using update_sentence_resolves by blast
    with propagate_mono [OF step.hyps(2)] show ?thesis by blast
  next
    case False
    with step.prems(3) have "Sentence {|A, B, C|} 2 \<in> set ss" by simp
    from step.IH [OF s1 hss this c1] show ?thesis .
  qed
qed

section \<open>The example games, step by step\<close>

lemmas eval_simps = Sentence_def safes_loop_body_def mines_loop_body_def Let_def
  fcard_finsert_if finsert_fminus_if ffilter_finsert ffilter_fempty range_py_def upto_rec1
  get_surrounding_cells_def get_all_cells_def MinesweeperAI_def append_sentence_def
  mark_surrounding_def mark_safes_body_def mark_mines_body_def
  sentence_mark_mine_def sentence_mark_safe_def iteration_of_def

lemma fset_differ: "x |\<in>| A \<Longrightarrow> x |\<notin>| B \<Longrightarrow> A \<noteq> B \<and> B \<noteq> A"
  by auto

lemma skip_pass:
  assumes "list_all (\<lambda>s. \<not> (count s > 0 \<and> fcard (cells s) > 0)) ss"
  shows "propagate st ss st"
  using assms
proof (induction ss)
  case Nil
  show ?case by (rule propagate.finished)
next
  case (Cons s ss)
  then have "update_sentence st s st" by (simp add: update_sentence.skip)
  moreover from Cons have "propagate st ss st" by simp
  ultimately show ?case by (rule propagate.step)
qed

lemma corner_nearby_mines: "nearby_mines corner_board (0, 0) = 3"
  by (simp add: nearby_mines_def corner_board_def in_bounds_def is_mine_def eval_simps)

lemma corner_marked:
  "mark_surrounding [(0, 1), (1, 0), (1, 1)] [(0, 1), (1, 0), (1, 1)]
     (get_surrounding_cells (MinesweeperAI 2 2) (0, 0)) 3
     (append_sentence (MinesweeperAI 2 2) (0, 0) 3) = corner_state"
  by (simp add: corner_state_def eval_simps) auto

lemma corner_pass: "propagate corner_state (knowledge corner_state) corner_state"
proof -
  have "update_sentence corner_state \<lparr>cells = {||}, count = 0\<rparr> corner_state"
    by (rule update_sentence.skip) simp
  then have "propagate corner_state [\<lparr>cells = {||}, count = 0\<rparr>] corner_state"
    using propagate.finished by (rule propagate.step)
  then show ?thesis by (simp add: corner_state_def)
qed

lemma corner_call: "add_knowledge (MinesweeperAI 2 2) (0, 0) 3 corner_state"
proof (rule add_knowledge.call)
  show "append_sentence (MinesweeperAI 2 2) (0, 0) 3 = append_sentence (MinesweeperAI 2 2) (0, 0) 3"
    by (rule refl)
  show "get_surrounding_cells (MinesweeperAI 2 2) (0, 0) = get_surrounding_cells (MinesweeperAI 2 2) (0, 0)"
    by (rule refl)
  show i: "iteration_of (get_surrounding_cells (MinesweeperAI 2 2) (0, 0)) [(0, 1), (1, 0), (1, 1)]"
    by (simp add: eval_simps)
  show "iteration_of (get_surrounding_cells (MinesweeperAI 2 2) (0, 0)) [(0, 1), (1, 0), (1, 1)]"
    by (rule i)
  show "corner_state = mark_surrounding [(0, 1), (1, 0), (1, 1)] [(0, 1), (1, 0), (1, 1)]
     (get_surrounding_cells (MinesweeperAI 2 2) (0, 0)) 3
     (append_sentence (MinesweeperAI 2 2) (0, 0) 3)"
    by (rule corner_marked [symmetric])
  show "propagate corner_state (knowledge corner_state) corner_state"
    by (rule corner_pass)
qed



lemma overlap_call: "add_knowledge corner_state (0, 1) 0 overlap_state"
proof (rule add_knowledge.call)
  let ?xs = "[(0, 0), (0, 2), (1, 0), (1, 1), (1, 2)] :: cell list"
  show "append_sentence corner_state (0, 1) 0 = append_sentence corner_state (0, 1) 0"
    by (rule refl)
  show "get_surrounding_cells corner_state (0, 1) = get_surrounding_cells corner_state (0, 1)"
    by (rule refl)
  show i: "iteration_of (get_surrounding_cells corner_state (0, 1)) ?xs"
    by (simp add: corner_state_def eval_simps)
  show "iteration_of (get_surrounding_cells corner_state (0, 1)) ?xs"
    by (rule i)
  show "overlap_state = mark_surrounding ?xs ?xs (get_surrounding_cells corner_state (0, 1)) 0
      (append_sentence corner_state (0, 1) 0)"
    by (simp add: overlap_state_def corner_state_def eval_simps) auto
  show "propagate overlap_state (knowledge overlap_state) overlap_state"
    by (rule skip_pass) (simp add: overlap_state_def Sentence_def)
qed

lemma first_call: "add_knowledge (MinesweeperAI 2 2) (1, 0) 2 after_first_move"
proof (rule add_knowledge.call)
  let ?xs = "[(0, 0), (0, 1), (1, 1), (2, 0), (2, 1)] :: cell list"
  show "append_sentence (MinesweeperAI 2 2) (1, 0) 2 = append_sentence (MinesweeperAI 2 2) (1, 0) 2"
    by (rule refl)
  show "get_surrounding_cells (MinesweeperAI 2 2) (1, 0) = get_surrounding_cells (MinesweeperAI 2 2) (1, 0)"
    by (rule refl)
  show i: "iteration_of (get_surrounding_cells (MinesweeperAI 2 2) (1, 0)) ?xs"
    by (simp add: eval_simps)
  show "iteration_of (get_surrounding_cells (MinesweeperAI 2 2) (1, 0)) ?xs"
    by (rule i)
  show e: "after_first_move = mark_surrounding ?xs ?xs (get_surrounding_cells (MinesweeperAI 2 2) (1, 0)) 2
       (append_sentence (MinesweeperAI 2 2) (1, 0) 2)"
    by (simp add: after_first_move_def eval_simps)
  have "update_sentence after_first_move (Sentence {|(0, 0), (0, 1), (1, 1), (2, 0), (2, 1)|} 2)
      (after_first_move\<lparr>mines := {||}, safes := {|(1, 0)|}\<rparr>)"
  proof (rule update_sentence.run)
    show "0 < count (Sentence {|(0, 0), (0, 1), (1, 1), (2, 0), (2, 1)|} 2) \<and>
        0 < fcard (cells (Sentence {|(0, 0), (0, 1), (1, 1), (2, 0), (2, 1)|} 2))"
      by (simp add: eval_simps)
    show "iteration_of (safes after_first_move) [(1, 0)]"
      by (simp add: after_first_move_def eval_simps)
    show "fold safes_loop_body [(1, 0)]
        (Sentence {|(0, 0), (0, 1), (1, 1), (2, 0), (2, 1)|} 2, mines after_first_move) =
        (Sentence {|(0, 0), (0, 1), (1, 1), (2, 0), (2, 1)|} 2, {||})"
      by (simp add: after_first_move_def eval_simps)
    show "iteration_of ({||} :: cell fset) []"
      by (simp add: eval_simps)
    show "fold mines_loop_body [] (Sentence {|(0, 0), (0, 1), (1, 1), (2, 0), (2, 1)|} 2, safes after_first_move)
        = (Sentence {|(0, 0), (0, 1), (1, 1), (2, 0), (2, 1)|} 2, {|(1, 0)|})"
      by (simp add: after_first_move_def)
  qed
  then have "update_sentence after_first_move (Sentence {|(0, 0), (0, 1), (1, 1), (2, 0), (2, 1)|} 2)
      after_first_move"
    by (simp add: after_first_move_def)
  then have "propagate after_first_move [Sentence {|(0, 0), (0, 1), (1, 1), (2, 0), (2, 1)|} 2]
      after_first_move"
    using propagate.finished by (rule propagate.step)
  then show "propagate after_first_move (knowledge after_first_move) after_first_move"
    by (simp add: after_first_move_def)
qed

lemma before_pass_eq:
  "mark_surrounding [(0, 1), (1, 0), (1, 1)] [(0, 1), (1, 0), (1, 1)]
     (get_surrounding_cells after_first_move (0, 0)) 2
     (append_sentence after_first_move (0, 0) 2) = before_pass"
  by (simp add: before_pass_def after_first_move_def eval_simps)

lemma second_pass: "propagate before_pass (knowledge before_pass) after_second_move"
proof -
  let ?s5 = "Sentence {|(0, 0), (0, 1), (1, 1), (2, 0), (2, 1)|} 2"
  let ?s3 = "Sentence {|(0, 1), (1, 0), (1, 1)|} 2"
  have "update_sentence before_pass ?s5 (before_pass\<lparr>mines := {||}, safes := {|(0, 0), (1, 0)|}\<rparr>)"
  proof (rule update_sentence.run)
    show "0 < count ?s5 \<and> 0 < fcard (cells ?s5)"
      by (simp add: eval_simps)
    show "iteration_of (safes before_pass) [(0, 0), (1, 0)]"
      by (simp add: before_pass_def eval_simps)
    show "fold safes_loop_body [(0, 0), (1, 0)] (?s5, mines before_pass) =
        (\<lparr>cells = {|(0, 1), (1, 1), (2, 0), (2, 1)|}, count = 2\<rparr>, {||})"
      by (simp add: before_pass_def eval_simps)
    show "iteration_of ({||} :: cell fset) []"
      by (simp add: eval_simps)
    show "fold mines_loop_body [] (\<lparr>cells = {|(0, 1), (1, 1), (2, 0), (2, 1)|}, count = 2\<rparr>, safes before_pass)
        = (\<lparr>cells = {|(0, 1), (1, 1), (2, 0), (2, 1)|}, count = 2\<rparr>, {|(0, 0), (1, 0)|})"
      by (simp add: before_pass_def)
  qed
  then have u1: "update_sentence before_pass ?s5 before_pass"
    by (simp add: before_pass_def)
  have "update_sentence before_pass ?s3 (before_pass\<lparr>mines := {|(0, 1), (1, 1)|}, safes := {|(0, 0), (1, 0)|}\<rparr>)"
  proof (rule update_sentence.run)
    show "0 < count ?s3 \<and> 0 < fcard (cells ?s3)"
      by (simp add: eval_simps)
    show "iteration_of (safes before_pass) [(0, 0), (1, 0)]"
      by (simp add: before_pass_def eval_simps)
    show "fold safes_loop_body [(0, 0), (1, 0)] (?s3, mines before_pass) =
        (\<lparr>cells = {||}, count = 0\<rparr>, {|(0, 1), (1, 1)|})"
      by (simp add: before_pass_def eval_simps)
    show "iteration_of {|(0, 1), (1, 1) :: cell|} [(0, 1), (1, 1)]"
      by (simp add: eval_simps)
    show "fold mines_loop_body [(0, 1), (1, 1)] (\<lparr>cells = {||}, count = 0\<rparr>, safes before_pass)
        = (\<lparr>cells = {||}, count = 0\<rparr>, {|(0, 0), (1, 0)|})"
      by (simp add: before_pass_def eval_simps)
  qed
  then have u2: "update_sentence before_pass ?s3 after_second_move"
    by (simp add: after_second_move_def before_pass_def)
  have "propagate before_pass [?s3] after_second_move"
    using u2 propagate.finished by (rule propagate.step)
  with u1 have "propagate before_pass [?s5, ?s3] after_second_move"
    by (rule propagate.step)
  then show ?thesis by (simp add: before_pass_def)
qed

lemma second_call: "add_knowledge after_first_move (0, 0) 2 after_second_move"
proof (rule add_knowledge.call)
  let ?xs = "[(0, 1), (1, 0), (1, 1)] :: cell list"
  show "append_sentence after_first_move (0, 0) 2 = append_sentence after_first_move (0, 0) 2"
    by (rule refl)
  show "get_surrounding_cells after_first_move (0, 0) = get_surrounding_cells after_first_move (0, 0)"
    by (rule refl)
  show i: "iteration_of (get_surrounding_cells after_first_move (0, 0)) ?xs"
    by (simp add: after_first_move_def eval_simps)
  show "iteration_of (get_surrounding_cells after_first_move (0, 0)) ?xs"
    by (rule i)
  show "before_pass = mark_surrounding ?xs ?xs (get_surrounding_cells after_first_move (0, 0)) 2
       (append_sentence after_first_move (0, 0) 2)"
    by (rule before_pass_eq [symmetric])
  show "propagate before_pass (knowledge before_pass) after_second_move"
    by (rule second_pass)
qed

lemma edge_nearby_mines: "nearby_mines edge_board (1, 0) = 2" "nearby_mines edge_board (0, 0) = 2"
  by (simp_all add: nearby_mines_def edge_board_def in_bounds_def is_mine_def eval_simps)

lemma edge_reachable: "reachable edge_board after_second_move"
proof -
  have w: "wf_board edge_board"
    by (simp add: wf_board_def edge_board_def)
  have f: "reachable edge_board (MinesweeperAI 2 2)"
    using reachable.fresh [OF w] by (simp add: edge_board_def)
  have b: "in_bounds edge_board (1, 0)" "\<not> is_mine edge_board (1, 0)"
    "in_bounds edge_board (0, 0)" "\<not> is_mine edge_board (0, 0)"
    by (simp_all add: in_bounds_def is_mine_def edge_board_def)
  have "add_knowledge (MinesweeperAI 2 2) (1, 0) (nearby_mines edge_board (1, 0)) after_first_move"
    using first_call by (simp add: edge_nearby_mines)
  with f b(1,2) have r1: "reachable edge_board after_first_move" by (rule reachable.move)
  have "add_knowledge after_first_move (0, 0) (nearby_mines edge_board (0, 0)) after_second_move"
    using second_call by (simp add: edge_nearby_mines)
  with r1 b(3,4) show ?thesis by (rule reachable.move)
qed

lemma before_pass_sound: "sound edge_board before_pass"
  by (simp add: sound_def holds_def mine_at_def in_bounds_def is_mine_def before_pass_def
      edge_board_def eval_simps)

lemma stored_three: "Sentence {|(0, 1), (1, 1), (1, 0)|} 2 \<in> set (knowledge before_pass)"
proof -
  have "{|(0, 1), (1, 1), (1, 0)|} = {|(0, 1), (1, 0), (1, 1) :: cell|}" by auto
  then show ?thesis by (simp add: before_pass_def)
qed

section \<open>The claims about the player\<close>

text \<open>
  C1. In every state the player reaches in a game on a board (constructed with the
  board's dimensions, then \<open>add_knowledge\<close> called any number of times, each time for a
  cell of the board that is not a mine, with the count the board reports for it), and
  whatever the orders in which the sets are iterated, \<open>safes\<close> and \<open>mines\<close> are
  disjoint.
\<close>

theorem C1_safes_mines_disjoint:
  assumes "reachable g st"
  shows "safes st |\<inter>| mines st = {||}"
  using assms reachable_sound sound_disjoint by blast

theorem C1_safes_mines_disjoint_witness:
  "reachable edge_board after_second_move \<and>
   safes after_second_move |\<inter>| mines after_second_move = {||} \<and>
   safes after_second_move = {|(0, 0), (1, 0)|} \<and> mines after_second_move = {|(0, 1), (1, 1)|}"
  using C1_safes_mines_disjoint [OF edge_reachable] edge_reachable
  by (simp add: after_second_move_def before_pass_def)

text \<open>
  Calls that are not moves on a board are not covered: a count of 3 for the corner
  followed by a count of 0 for its neighbour \<open>(0, 1)\<close> leaves \<open>(0, 1)\<close> in both sets.
\<close>

lemma overlap_without_board:
  "add_knowledge (MinesweeperAI 2 2) (0, 0) 3 corner_state \<and>
   add_knowledge corner_state (0, 1) 0 overlap_state \<and>
   (0, 1) |\<in>| safes overlap_state |\<inter>| mines overlap_state"
  using corner_call overlap_call by (simp add: overlap_state_def)

text \<open>
  C2. The sentence that \<open>add_knowledge(cell, count)\<close> appends is over
  \<open>_get_surrounding_cells(cell)\<close> with the given count, and the cells of the board in
  it are exactly the cells of the board within Chebyshev distance 1 of the cell, the
  cell itself excluded, whether they are already revealed or not.
\<close>

theorem C2_appended_sentence_cells:
  "knowledge (append_sentence st c n) = knowledge st @ [Sentence (get_surrounding_cells st c) n] \<and>
   count (Sentence (get_surrounding_cells st c) n) = n \<and>
   ffilter (\<lambda>p. p |\<in>| get_all_cells st) (cells (Sentence (get_surrounding_cells st c) n)) =
   ffilter (\<lambda>p. max \<bar>fst p - fst c\<bar> \<bar>snd p - snd c\<bar> \<le> 1 \<and> p \<noteq> c) (get_all_cells st)"
proof -
  have "ffilter (\<lambda>p. p |\<in>| get_all_cells st) (get_surrounding_cells st c) =
      ffilter (\<lambda>p. max \<bar>fst p - fst c\<bar> \<bar>snd p - snd c\<bar> \<le> 1 \<and> p \<noteq> c) (get_all_cells st)"
    by (rule fset_eqI) (auto simp: mem_get_all_cells mem_get_surrounding_cells)
  then show ?thesis by (simp add: append_sentence_simps Sentence_def)
qed

theorem C2_revealed_neighbour_in_sentence:
  "add_knowledge (MinesweeperAI 2 2) (1, 0) 2 after_first_move \<and>
   (1, 0) |\<in>| moves_made after_first_move \<and>
   knowledge (append_sentence after_first_move (0, 0) 2) =
     knowledge after_first_move @ [Sentence {|(0, 1), (1, 0), (1, 1)|} 2] \<and>
   unrevealed_neighbours_spec (append_sentence after_first_move (0, 0) 2) (0, 0) = {|(0, 1), (1, 1)|} \<and>
   {|(0, 1), (1, 0), (1, 1)|} \<noteq> unrevealed_neighbours_spec (append_sentence after_first_move (0, 0) 2) (0, 0)"
proof -
  have u: "unrevealed_neighbours_spec (append_sentence after_first_move (0, 0) 2) (0, 0) = {|(0, 1), (1, 1)|}"
    by (simp add: unrevealed_neighbours_spec_def after_first_move_def eval_simps)
  have k: "knowledge (append_sentence after_first_move (0, 0) 2) =
     knowledge after_first_move @ [Sentence {|(0, 1), (1, 0), (1, 1)|} 2]"
    by (simp add: after_first_move_def eval_simps)
  have "{|(0, 1), (1, 0), (1, 1)|} \<noteq> {|(0, 1), (1, 1) :: cell|}"
    using fset_differ [of "(1, 0) :: cell" "{|(0, 1), (1, 0), (1, 1)|}" "{|(0, 1), (1, 1)|}"] by simp
  with u k first_call show ?thesis by (simp add: after_first_move_def)
qed

text \<open>
  The limits \<open>min(self.height, cell[0] + 1)\<close> and \<open>min(self.width, cell[1] + 1)\<close> are
  included in the loops, so for a cell in the last row the row \<open>height\<close>, which is not
  on the board, is among the surrounding cells.
\<close>

lemma get_surrounding_cells_past_last_row:
  "(2, 0) |\<in>| get_surrounding_cells (MinesweeperAI 2 2) (1, 0) \<and>
   (2, 0) |\<notin>| get_all_cells (MinesweeperAI 2 2)"
  by (simp add: mem_get_surrounding_cells mem_get_all_cells MinesweeperAI_def)

text \<open>
  C4. In a state that is consistent with a board (what is in \<open>safes\<close> holds no mine,
  what is in \<open>mines\<close> does, every sentence of \<open>knowledge\<close> counts the mines among
  its cells), with a sentence \<open>{A, B, C} = 2\<close> in \<open>knowledge\<close> and \<open>C\<close> in \<open>safes\<close>:
  every propagation pass ends with \<open>A\<close> and \<open>B\<close> in \<open>mines\<close>, and with \<open>knowledge\<close> as
  it was, the sentence \<open>{A, B, C} = 2\<close> included; only the copy is reduced.
\<close>

theorem C4_subset_equal_count_resolution:
  assumes "sound g st"
    and "Sentence {|A, B, C|} 2 \<in> set (knowledge st)" "C |\<in>| safes st"
    and "propagate st (knowledge st) st'"
  shows "A |\<in>| mines st' \<and> B |\<in>| mines st' \<and> knowledge st' = knowledge st"
proof -
  from assms(1) have "list_all (holds g) (knowledge st)" by (simp add: sound_def)
  from propagate_resolves [OF assms(4,1) this assms(2,3)] propagate_frame [OF assms(4)]
  show ?thesis by simp
qed

theorem C4_subset_equal_count_resolution_witness:
  "sound edge_board before_pass \<and>
   Sentence {|(0, 1), (1, 1), (1, 0)|} 2 \<in> set (knowledge before_pass) \<and>
   (1, 0) |\<in>| safes before_pass \<and>
   propagate before_pass (knowledge before_pass) after_second_move \<and>
   (0, 1) |\<in>| mines after_second_move \<and> (1, 1) |\<in>| mines after_second_move \<and>
   knowledge after_second_move = knowledge before_pass"
proof -
  have c: "(1, 0) |\<in>| safes before_pass" by (simp add: before_pass_def)
  from C4_subset_equal_count_resolution [OF before_pass_sound stored_three c second_pass]
    before_pass_sound stored_three c second_pass
  show ?thesis by blast
qed

theorem C4_stored_sentence_not_reduced:
  "Sentence {|(0, 1), (1, 1), (1, 0)|} 2 \<in> set (knowledge before_pass) \<and>
   (1, 0) |\<in>| safes before_pass \<and>
   propagate before_pass (knowledge before_pass) after_second_move \<and>
   Sentence {|(0, 1), (1, 1)|} 2 \<notin> set (knowledge after_second_move) \<and>
   Sentence {|(0, 1), (1, 1), (1, 0)|} 2 \<in> set (knowledge after_second_move)"
proof -
  have "{|(0, 1), (1, 1), (1, 0)|} = {|(0, 1), (1, 0), (1, 1) :: cell|}" by auto
  moreover have "{|(0, 1), (1, 1)|} \<noteq> {|(0, 1), (1, 0), (1, 1) :: cell|}"
    using fset_differ [of "(1, 0) :: cell" "{|(0, 1), (1, 0), (1, 1)|}" "{|(0, 1), (1, 1)|}"] by simp
  moreover have "{|(0, 1), (1, 1)|} \<noteq> {|(0, 0), (0, 1), (1, 1), (2, 0), (2, 1) :: cell|}"
    using fset_differ [of "(0, 0) :: cell" "{|(0, 0), (0, 1), (1, 1), (2, 0), (2, 1)|}" "{|(0, 1), (1, 1)|}"]
    by simp
  ultimately show ?thesis using second_pass
    by (simp add: after_second_move_def before_pass_def Sentence_def)
qed

text \<open>
  Where the state is consistent with no board the outcome depends on the order of
  iteration: with \<open>A = (0, 0)\<close> in \<open>safes\<close> next to \<open>C = (1, 0)\<close>, visiting \<open>A\<close> first
  resolves \<open>B\<close> and \<open>C\<close> as mines and not \<open>A\<close>.
\<close>

lemma propagate_depends_on_iteration_order:
  "propagate clash_state (knowledge clash_state) (clash_state\<lparr>mines := {|(0, 1), (1, 0)|}\<rparr>)"
proof -
  let ?s = "Sentence {|(0, 0), (0, 1), (1, 0)|} 2"
  have "update_sentence clash_state ?s
      (clash_state\<lparr>mines := {|(0, 1), (1, 0)|}, safes := {|(0, 0), (1, 0)|}\<rparr>)"
  proof (rule update_sentence.run)
    show "0 < count ?s \<and> 0 < fcard (cells ?s)"
      by (simp add: eval_simps)
    show "iteration_of (safes clash_state) [(0, 0), (1, 0)]"
      by (simp add: clash_state_def eval_simps)
    show "fold safes_loop_body [(0, 0), (1, 0)] (?s, mines clash_state) =
        (\<lparr>cells = {||}, count = 0\<rparr>, {|(0, 1), (1, 0)|})"
      by (simp add: clash_state_def eval_simps)
    show "iteration_of {|(0, 1), (1, 0) :: cell|} [(0, 1), (1, 0)]"
      by (simp add: eval_simps)
    show "fold mines_loop_body [(0, 1), (1, 0)] (\<lparr>cells = {||}, count = 0\<rparr>, safes clash_state)
        = (\<lparr>cells = {||}, count = 0\<rparr>, {|(0, 0), (1, 0)|})"
      by (simp add: clash_state_def eval_simps)
  qed
  then have "update_sentence clash_state ?s (clash_state\<lparr>mines := {|(0, 1), (1, 0)|}\<rparr>)"
    by (simp add: clash_state_def)
  then have "propagate clash_state [?s] (clash_state\<lparr>mines := {|(0, 1), (1, 0)|}\<rparr>)"
    using propagate.finished by (rule propagate.step)
  then show ?thesis by (simp add: clash_state_def)
qed








text \<open>
  C10. The propagation pass always ends, and the state it ends in has the same
  \<open>knowledge\<close> list, sentence for sentence, the same \<open>moves_made\<close>, height and width;
  \<open>mines\<close> and \<open>safes\<close> can only have grown.
\<close>

theorem C10_propagation_keeps_knowledge:
  "(\<exists>st'. propagate st (knowledge st) st') \<and>
   (\<forall>st'. propagate st (knowledge st) st' \<longrightarrow>
      knowledge st' = knowledge st \<and> moves_made st' = moves_made st \<and>
      height st' = height st \<and> width st' = width st \<and>
      mines st |\<subseteq>| mines st' \<and> safes st |\<subseteq>| safes st')"
  using propagate_total [of st "knowledge st"] propagate_frame [of st "knowledge st"]
    propagate_mono [of st "knowledge st"]
  by blast

theorem C10_propagation_keeps_knowledge_witness:
  "propagate before_pass (knowledge before_pass) after_second_move \<and>
   knowledge after_second_move = knowledge before_pass \<and>
   mines before_pass |\<subseteq>| mines after_second_move \<and>
   mines after_second_move = {|(0, 1), (1, 1)|}"
proof -
  have "mines after_second_move = {|(0, 1), (1, 1)|}"
    by (simp add: after_second_move_def)
  with C10_propagation_keeps_knowledge [of before_pass] second_pass show ?thesis
    by blast
qed

end
